theory Spec2Isabelle
  imports Main
begin

section \<open>The shared key-value store\<close>

text \<open>
  The service keeps all rate state in a Redis store, reached through the \<open>client\<close> field
  of \<open>GalactusAPI\<close>. The store is modelled as explicit state: a clock, the string keys
  with their optional expiry, the set keys, and a schedule of connection faults.

  Keys are built by \<open>rediskey.GuildTokenLock(guildID, hashToken)\<close> and
  \<open>rediskey.GuildTokensKey(guildID)\<close>; the two builders are constructors here, so
  distinct arguments give distinct keys.

  Times and durations are in nanoseconds, the unit of Go's \<open>time.Duration\<close>.
\<close>

datatype key = GuildTokenLock string string | GuildTokensKey string

datatype store_error = ConnFault | IncrOverflow

record store =
  now :: nat
  faults :: "bool list"
  strings :: "key \<rightharpoonup> (int \<times> nat option)"
  sets :: "key \<Rightarrow> string list"

definition INT64_MAX :: int where
  "INT64_MAX = 9223372036854775807"

definition Millisecond :: int where
  "Millisecond = 1000000"

definition Second :: int where
  "Second = 1000 * Millisecond"

definition Minute :: int where
  "Minute = 60 * Second"

text \<open>
  A string key is visible while it has no expiry or its expiry lies in the future; an
  expired key reads as absent.
\<close>

definition live :: "nat \<Rightarrow> nat option \<Rightarrow> bool" where
  "live t e = (case e of None \<Rightarrow> True | Some x \<Rightarrow> t < x)"

definition lookup :: "store \<Rightarrow> key \<Rightarrow> (int \<times> nat option) option" where
  "lookup s k =
     (case strings s k of
        None \<Rightarrow> None
      | Some p \<Rightarrow> if live (now s) (snd p) then Some p else None)"

definition counter :: "store \<Rightarrow> key \<Rightarrow> int" where
  "counter s k = (case lookup s k of None \<Rightarrow> 0 | Some (v, e) \<Rightarrow> v)"

definition ttl :: "store \<Rightarrow> key \<Rightarrow> nat option" where
  "ttl s k = (case lookup s k of None \<Rightarrow> None | Some (v, e) \<Rightarrow> e)"

text \<open>
  Every command consumes the head of the fault schedule; \<open>True\<close> there makes the command
  return an error without touching the data. An empty schedule means no fault.
\<close>

definition next_fault :: "store \<Rightarrow> bool" where
  "next_fault s = (case faults s of [] \<Rightarrow> False | f # fs \<Rightarrow> f)"

definition consume :: "store \<Rightarrow> store" where
  "consume s = s\<lparr>faults := tl (faults s)\<rparr>"

definition healthy :: "store \<Rightarrow> bool" where
  "healthy s = (True \<notin> set (faults s))"

definition put :: "store \<Rightarrow> key \<Rightarrow> int \<times> nat option \<Rightarrow> store" where
  "put s k p = s\<lparr>strings := (strings s)(k \<mapsto> p)\<rparr>"

definition del :: "store \<Rightarrow> key \<Rightarrow> store" where
  "del s k = s\<lparr>strings := (strings s)(k := None)\<rparr>"

text \<open>
  \<open>INCR\<close>: an absent key counts as 0; the expiry of the key is kept; a value at the top
  of the signed 64-bit range is an error and stays as it is.
\<close>

definition Incr :: "store \<Rightarrow> key \<Rightarrow> (store_error + int) \<times> store" where
  "Incr s k =
     (if next_fault s then (Inl ConnFault, consume s)
      else
        (case lookup s k of
           None \<Rightarrow> (Inr 1, put (consume s) k (1, None))
         | Some (v, e) \<Rightarrow>
             if INT64_MAX \<le> v then (Inl IncrOverflow, consume s)
             else (Inr (v + 1), put (consume s) k (v + 1, e))))"

text \<open>
  The client library sends a duration as a whole number of seconds or of milliseconds.
  \<open>quot\<close> is Go's integer division by a positive divisor (it truncates toward zero);
  \<open>formatSec\<close>, \<open>formatMs\<close> and \<open>usePrecise\<close> are the library's functions of these names:
  a positive duration below one unit is sent as one unit, any other duration is divided
  by the unit, and milliseconds are used when the duration is below a second or not a
  whole number of seconds.
\<close>

definition quot :: "int \<Rightarrow> int \<Rightarrow> int" where
  "quot a b = (if a < 0 then - ((- a) div b) else a div b)"

definition formatSec :: "int \<Rightarrow> int" where
  "formatSec dur = (if 0 < dur \<and> dur < Second then 1 else quot dur Second)"

definition formatMs :: "int \<Rightarrow> int" where
  "formatMs dur = (if 0 < dur \<and> dur < Millisecond then 1 else quot dur Millisecond)"

definition usePrecise :: "int \<Rightarrow> bool" where
  "usePrecise dur = (dur < Second \<or> dur - quot dur Second * Second \<noteq> 0)"

text \<open>
  \<open>client.Expire(key, d)\<close> sends \<open>EXPIRE key (formatSec d)\<close>: a visible key gets the
  expiry that many seconds from now (a non-positive number of seconds deletes it); an
  absent key is left absent.
\<close>

definition Expire :: "store \<Rightarrow> key \<Rightarrow> int \<Rightarrow> store_error option \<times> store" where
  "Expire s k d =
     (if next_fault s then (Some ConnFault, consume s)
      else
        (case lookup s k of
           None \<Rightarrow> (None, consume s)
         | Some (v, e) \<Rightarrow>
             if formatSec d \<le> 0 then (None, del (consume s) k)
             else (None, put (consume s) k (v, Some (now s + nat (formatSec d * Second))))))"

text \<open>
  \<open>client.Set(key, v, d)\<close>: a positive expiration is sent as \<open>PX (formatMs d)\<close> or as
  \<open>EX (formatSec d)\<close>, and \<open>sent_ttl\<close> is the time to live the store receives, in
  nanoseconds; the expiration \<open>-1\<close> keeps the expiry the key has; anything else stores
  the value with no expiry.
\<close>

definition sent_ttl :: "int \<Rightarrow> int" where
  "sent_ttl d = (if usePrecise d then formatMs d * Millisecond else formatSec d * Second)"

definition Set_cmd :: "store \<Rightarrow> key \<Rightarrow> int \<Rightarrow> int \<Rightarrow> store_error option \<times> store" where
  "Set_cmd s k v d =
     (if next_fault s then (Some ConnFault, consume s)
      else
        (let e = (if 0 < d then Some (now s + nat (sent_ttl d))
                  else if d = - 1 then ttl s k
                  else None)
         in (None, put (consume s) k (v, e))))"


definition SRem :: "store \<Rightarrow> key \<Rightarrow> string \<Rightarrow> store_error option \<times> store" where
  "SRem s k m =
     (if next_fault s then (Some ConnFault, consume s)
      else (None, (consume s)\<lparr>sets := (sets s)(k := removeAll m (sets s k))\<rparr>))"

text \<open>Time passing: the clock moves forward, nothing else changes.\<close>

definition advance :: "nat \<Rightarrow> store \<Rightarrow> store" where
  "advance dt s = s\<lparr>now := now s + dt\<rparr>"

section \<open>The token provider\<close>

datatype session = Session nat

text \<open>
  The three tiers of a dispatch, and the lines of the process log. \<open>LogCall\<close> is the
  line a tier function leaves when it is called.
\<close>

datatype tier = Secondary | CaptureBot | PrimaryBot

datatype logline =
    LogError store_error
  | LogTokenCount string string int bool
  | LogSkipping
  | LogApplying bool bool
  | LogMessage string
  | LogCall tier

text \<open>
  \<open>GalactusAPI\<close> with the fields the rate gate and the session lookup use. The lines
  written with package \<open>log\<close> are collected in \<open>out\<close>.
\<close>

record GalactusAPI =
  client :: store
  activeSessions :: "string \<rightharpoonup> session"
  maxRequests5Seconds :: int
  out :: "logline list"

definition log_err :: "store_error option \<Rightarrow> logline list" where
  "log_err e = (case e of None \<Rightarrow> [] | Some x \<Rightarrow> [LogError x])"

text \<open>
  \<open>IncrAndTestGuildTokenComboLock\<close>: on an error of \<open>Incr\<close> the count \<open>i\<close> is the zero
  value that comes with the error.
\<close>

definition IncrAndTestGuildTokenComboLock ::
  "GalactusAPI \<Rightarrow> string \<Rightarrow> string \<Rightarrow> bool \<times> GalactusAPI" where
  "IncrAndTestGuildTokenComboLock a guildID hashToken =
     (let (r, s1) = Incr (client a) (GuildTokenLock guildID hashToken);
          i = (case r of Inl e \<Rightarrow> 0 | Inr v \<Rightarrow> v);
          l1 = out a @ (case r of Inl e \<Rightarrow> [LogError e] | Inr v \<Rightarrow> []);
          usable = (i < maxRequests5Seconds a);
          l2 = l1 @ [LogTokenCount hashToken guildID i usable]
      in if \<not> usable then (False, a\<lparr>client := s1, out := l2\<rparr>)
         else
           (let (e, s2) = Expire s1 (GuildTokenLock guildID hashToken) (Second * 5)
            in (True, a\<lparr>client := s2, out := l2 @ log_err e\<rparr>)))"

definition BlacklistTokenForDuration ::
  "GalactusAPI \<Rightarrow> string \<Rightarrow> string \<Rightarrow> int \<Rightarrow> store_error option \<times> GalactusAPI" where
  "BlacklistTokenForDuration a guildID hashToken duration =
     (let (e, s1) = Set_cmd (client a) (GuildTokenLock guildID hashToken)
                      (maxRequests5Seconds a) duration
      in (e, a\<lparr>client := s1\<rparr>))"

text \<open>
  A sequence of admissions of one pair: before each call the given time passes.
\<close>

fun admits :: "GalactusAPI \<Rightarrow> string \<Rightarrow> string \<Rightarrow> nat list \<Rightarrow> bool list \<times> GalactusAPI" where
  "admits a g h [] = ([], a)"
| "admits a g h (dt # dts) =
     (let (b, a1) = IncrAndTestGuildTokenComboLock (a\<lparr>client := advance dt (client a)\<rparr>) g h;
          (bs, a2) = admits a1 g h dts
      in (b # bs, a2))"

section \<open>The capture bridge\<close>

definition UnresponsiveCaptureBlacklistDuration :: int where
  "UnresponsiveCaptureBlacklistDuration = Minute * 5"

text \<open>
  Modelled from the spec: \<open>attemptOnCaptureBot\<close>, the caller of \<open>waitForAck\<close>, is not among
  the source files. The spec (4.3, steps 4 and 5) says what it does with the outcome of the
  wait: on success it returns true; on a timeout or an explicit false it blacklists the
  capture sentinel of the guild for five minutes and returns false.
\<close>

definition captureOutcome :: "GalactusAPI \<Rightarrow> string \<Rightarrow> string \<Rightarrow> bool \<Rightarrow> bool \<times> GalactusAPI" where
  "captureOutcome a guildID captureSentinel acked =
     (if acked then (True, a)
      else (False, snd (BlacklistTokenForDuration a guildID captureSentinel
                          UnresponsiveCaptureBlacklistDuration)))"

text \<open>Concrete states for the examples: an empty store at time 0 and a provider on it.\<close>

definition store0 :: "bool list \<Rightarrow> store" where
  "store0 fs = \<lparr>now = 0, faults = fs, strings = Map.empty, sets = (\<lambda>k. [])\<rparr>"

definition api0 :: "int \<Rightarrow> bool list \<Rightarrow> GalactusAPI" where
  "api0 maxReq fs =
     \<lparr>client = store0 fs, activeSessions = Map.empty, maxRequests5Seconds = maxReq, out = []\<rparr>"

section \<open>Secondary sessions\<close>

text \<open>
  \<open>PremiumBotConstraints\<close> maps a premium tier to the number of secondary bots. Indexing
  a Go map with a key it does not hold gives the zero value, which \<open>constraint\<close> writes
  out: it is the \<open>limit\<close> the \<open>/modify\<close> handler computes.
\<close>

definition PremiumBotConstraints :: "int \<rightharpoonup> int" where
  "PremiumBotConstraints = [0 \<mapsto> 0, 1 \<mapsto> 0, 2 \<mapsto> 1, 3 \<mapsto> 3, 4 \<mapsto> 10, 5 \<mapsto> 100]"

definition constraint :: "int \<Rightarrow> int" where
  "constraint premium = (case PremiumBotConstraints premium of None \<Rightarrow> 0 | Some n \<Rightarrow> n)"


text \<open>
  \<open>getAnySession\<close>: the \<open>for i, hToken := range tokens\<close> loop, with the index \<open>i\<close> and
  the tokens still to visit. The read lock on the registry has no effect on a single
  thread and is left out.
\<close>

fun getAnySession_range ::
  "GalactusAPI \<Rightarrow> string \<Rightarrow> int \<Rightarrow> int \<Rightarrow> string list \<Rightarrow> (session option \<times> string) \<times> GalactusAPI" where
  "getAnySession_range a guildID limit i [] = ((None, ''''), a)"
| "getAnySession_range a guildID limit i (hToken # rest) =
     (if i = limit then ((None, ''''), a)
      else
        (let (ok, a1) = IncrAndTestGuildTokenComboLock a guildID hToken
         in if ok then
              (case activeSessions a1 hToken of
                 Some sess \<Rightarrow> ((Some sess, hToken), a1)
               | None \<Rightarrow>
                   (let (e, s2) = SRem (client a1) (GuildTokensKey guildID) hToken
                    in getAnySession_range (a1\<lparr>client := s2\<rparr>) guildID limit (i + 1) rest))
            else getAnySession_range (a1\<lparr>out := out a1 @ [LogSkipping]\<rparr>) guildID limit (i + 1) rest))"

definition getAnySession ::
  "GalactusAPI \<Rightarrow> string \<Rightarrow> string list \<Rightarrow> int \<Rightarrow> (session option \<times> string) \<times> GalactusAPI" where
  "getAnySession a guildID tokens limit = getAnySession_range a guildID limit 0 tokens"

text \<open>
  Every call of \<open>IncrAndTestGuildTokenComboLock\<close> writes one "Token ... is at count ...
  Using: ..." line. The tokens of these lines are the tokens attempted, and those with
  \<open>Using: true\<close> the tokens admitted.
\<close>

fun attempted :: "logline list \<Rightarrow> string list" where
  "attempted [] = []"
| "attempted (LogTokenCount h g i u # ls) = h # attempted ls"
| "attempted (l # ls) = attempted ls"

fun admitted :: "logline list \<Rightarrow> string list" where
  "admitted [] = []"
| "admitted (LogTokenCount h g i u # ls) = (if u then h # admitted ls else admitted ls)"
| "admitted (l # ls) = admitted ls"

text \<open>The tokens attempted and admitted between two states of the provider.\<close>

definition attempts_between :: "GalactusAPI \<Rightarrow> GalactusAPI \<Rightarrow> string list" where
  "attempts_between a a' = drop (length (attempted (out a))) (attempted (out a'))"

definition admitted_between :: "GalactusAPI \<Rightarrow> GalactusAPI \<Rightarrow> string list" where
  "admitted_between a a' = drop (length (admitted (out a))) (admitted (out a'))"

text \<open>
  A provider for the examples: guild 100 has the tokens h1, h2 and h3, and only h3 has a
  session.
\<close>

definition api1 :: GalactusAPI where
  "api1 =
     \<lparr>client = \<lparr>now = 0, faults = [], strings = Map.empty,
                sets = (\<lambda>k. if k = GuildTokensKey ''100'' then [''h1'', ''h2'', ''h3''] else [])\<rparr>,
      activeSessions = [''h3'' \<mapsto> Session 3],
      maxRequests5Seconds = 7,
      out = []\<rparr>"

text \<open>The state in which the loop goes on after a token that gave no session.\<close>

definition after_miss :: "GalactusAPI \<Rightarrow> string \<Rightarrow> string \<Rightarrow> GalactusAPI" where
  "after_miss a g h =
     (let (b, a1) = IncrAndTestGuildTokenComboLock a g h
      in if b then a1\<lparr>client := snd (SRem (client a1) (GuildTokensKey g) h)\<rparr>
         else a1\<lparr>out := out a1 @ [LogSkipping]\<rparr>)"

section \<open>The capture acknowledgement\<close>

definition DefaultCaptureBotTimeout :: int where
  "DefaultCaptureBotTimeout = Second"

text \<open>
  \<open>waitForAck\<close> blocks in a \<open>select\<close> on the timer and on the channel of the
  subscription, and both cases return, so the loop body runs once. The case the
  \<open>select\<close> takes is an event: the timer fired, or a message with a payload was received.
  The deferred \<open>pubsub.Close()\<close> runs on return.
\<close>

datatype select_event = TimerFired | Received string

record PubSub =
  closed :: bool

definition waitForAck :: "PubSub \<Rightarrow> select_event \<Rightarrow> bool \<times> PubSub" where
  "waitForAck pubsub ev =
     (case ev of
        TimerFired \<Rightarrow> (False, pubsub\<lparr>closed := True\<rparr>)
      | Received payload \<Rightarrow> (payload = ''true'', pubsub\<lparr>closed := True\<rparr>))"

text \<open>
  Which case the \<open>select\<close> takes: the timer is ready \<open>waitTime\<close> after the start (at
  once when \<open>waitTime\<close> is not positive), the channel when the first message arrives, if
  one does. The earlier one is taken; when both are ready at the same instant the runtime
  picks either, which \<open>pick_message\<close> decides.
\<close>

definition select_case :: "int \<Rightarrow> (nat \<times> string) option \<Rightarrow> bool \<Rightarrow> select_event" where
  "select_case waitTime msg pick_message =
     (case msg of
        None \<Rightarrow> TimerFired
      | Some (t, payload) \<Rightarrow>
          if int t < max 0 waitTime then Received payload
          else if int t = max 0 waitTime \<and> pick_message then Received payload
          else TimerFired)"

section \<open>The modify handler\<close>



record MuteDeafenSuccessCounts =
  Worker :: int
  Capture :: int
  Official :: int
  RateLimit :: int


text \<open>
  The two settings \<open>Run\<close> reads from the environment; the argument is the integer
  \<open>strconv.ParseInt\<close> returned, or \<open>None\<close> when it returned an error. The product is a
  64-bit product.
\<close>

definition wrap64 :: "int \<Rightarrow> int" where
  "wrap64 x = (x + 2 ^ 63) mod 2 ^ 64 - 2 ^ 63"

definition env_taskTimeoutms :: "int option \<Rightarrow> int" where
  "env_taskTimeoutms env =
     (case env of None \<Rightarrow> DefaultCaptureBotTimeout | Some num \<Rightarrow> wrap64 (Millisecond * num))"










datatype response_body = Text string | Counts MuteDeafenSuccessCounts

record response =
  status :: nat
  payload :: response_body






text \<open>
  The calls of the tier functions, read off the lines they leave in the log of the provider.
  The tier functions are traced when each of them, whatever else it does, leaves its line
  after what the log holds. \<open>tiers_traced\<close> is an example: the secondary tier fails, the
  capture bot succeeds for a mute request, the primary bot fails for a deafen request.
\<close>

fun calls :: "logline list \<Rightarrow> tier list" where
  "calls [] = []"
| "calls (LogCall t # ls) = t # calls ls"
| "calls (l # ls) = calls ls"




section \<open>Facts about the store commands\<close>

lemma healthy_next_fault: "healthy s \<Longrightarrow> \<not> next_fault s"
  by (cases "faults s") (auto simp: healthy_def next_fault_def)

lemma healthy_consume: "healthy s \<Longrightarrow> healthy (consume s)"
  by (cases "faults s") (auto simp: healthy_def consume_def)

lemma consume_fields [simp]:
  "now (consume s) = now s" "strings (consume s) = strings s" "sets (consume s) = sets s"
  by (simp_all add: consume_def)

lemma put_fields [simp]:
  "now (put s k p) = now s" "faults (put s k p) = faults s" "sets (put s k p) = sets s"
  by (simp_all add: put_def)

lemma healthy_put [simp]: "healthy (put s k p) = healthy s"
  by (simp add: healthy_def)

lemma healthy_sets_upd [simp]: "healthy (s\<lparr>sets := y\<rparr>) = healthy s"
  by (simp add: healthy_def)

lemma healthy_advance [simp]: "healthy (advance dt s) = healthy s"
  by (simp add: healthy_def advance_def)

lemma lookup_consume [simp]: "lookup (consume s) k = lookup s k"
  by (simp add: lookup_def split: option.splits)

lemma lookup_sets_upd [simp]: "lookup (s\<lparr>sets := y\<rparr>) k = lookup s k"
  by (simp add: lookup_def split: option.splits)

lemma lookup_put:
  "lookup (put s k p) k' =
     (if k' = k then (if live (now s) (snd p) then Some p else None) else lookup s k')"
  by (simp add: lookup_def put_def split: option.splits)

lemma lookup_live: "lookup s k = Some (v, e) \<Longrightarrow> live (now s) e"
  by (auto simp: lookup_def split: option.splits if_splits)

lemma live_ttl: "live (now s) (ttl s k)"
  by (cases "lookup s k") (auto simp: ttl_def live_def dest: lookup_live)

lemma live_later: "0 < d \<Longrightarrow> live t (Some (t + nat d))"
  by (simp add: live_def)

lemma Second_pos: "0 < Second * 5"
  by (simp add: Second_def Millisecond_def)

lemma Incr_healthy:
  assumes "healthy s" and "counter s k < INT64_MAX"
  shows "Incr s k = (Inr (counter s k + 1), put (consume s) k (counter s k + 1, ttl s k))"
  using assms
  by (cases "lookup s k")
     (auto simp: Incr_def healthy_next_fault counter_def ttl_def INT64_MAX_def)

lemma formatSec_5: "formatSec (Second * 5) = 5"
  by (simp add: formatSec_def quot_def Second_def Millisecond_def)

lemma Expire_healthy:
  assumes "healthy s" and "lookup s k = Some (v, e)"
  shows "Expire s k (Second * 5) = (None, put (consume s) k (v, Some (now s + nat (Second * 5))))"
  using assms by (simp add: Expire_def healthy_next_fault formatSec_5 mult.commute)

text \<open>What one admission does when the store executes both commands.\<close>

lemma admit_healthy:
  assumes "healthy (client a)" and "counter (client a) (GuildTokenLock g h) < INT64_MAX"
  shows "IncrAndTestGuildTokenComboLock a g h =
    (let k = GuildTokenLock g h; s = client a; i = counter s k + 1;
         usable = (i < maxRequests5Seconds a);
         l2 = out a @ [LogTokenCount h g i usable]
     in if usable
        then (True, a\<lparr>client := put (consume (put (consume s) k (i, ttl s k))) k
                                  (i, Some (now s + nat (Second * 5))),
                      out := l2\<rparr>)
        else (False, a\<lparr>client := put (consume s) k (i, ttl s k), out := l2\<rparr>))"
proof -
  let ?k = "GuildTokenLock g h"
  let ?s = "client a"
  let ?s1 = "put (consume ?s) ?k (counter ?s ?k + 1, ttl ?s ?k)"
  have i: "Incr ?s ?k = (Inr (counter ?s ?k + 1), ?s1)"
    using assms by (rule Incr_healthy)
  have h1: "healthy ?s1" using assms(1) by (simp add: healthy_consume)
  have l1: "lookup ?s1 ?k = Some (counter ?s ?k + 1, ttl ?s ?k)"
    using live_ttl [of ?s ?k] by (simp add: lookup_put)
  have e: "Expire ?s1 ?k (Second * 5) =
     (None, put (consume ?s1) ?k (counter ?s ?k + 1, Some (now ?s1 + nat (Second * 5))))"
    using h1 l1 by (rule Expire_healthy)
  show ?thesis
    by (simp add: IncrAndTestGuildTokenComboLock_def i e Let_def log_err_def)
qed

section \<open>The rate gate\<close>

text \<open>
  C1. \<open>IncrAndTestGuildTokenComboLock\<close> (the spec's \<open>admit\<close>), when the store executes
  its commands: the stored counter of the pair goes up by one (an absent counter counts
  as 0), the result is true exactly when the new value is strictly below
  \<open>maxRequests5Seconds\<close>, and the expiry of the counter is five seconds from now after a
  true result and what it was before after a false one. The failure path of the contract
  is C6.
\<close>

theorem admit_contract:
  assumes "healthy (client a)"
    and "counter (client a) (GuildTokenLock g h) < INT64_MAX"
  shows "(let k = GuildTokenLock g h;
             (b, a') = IncrAndTestGuildTokenComboLock a g h
         in counter (client a') k = counter (client a) k + 1 \<and>
            b = (counter (client a) k + 1 < maxRequests5Seconds a) \<and>
            ttl (client a') k =
              (if b then Some (now (client a) + nat (Second * 5)) else ttl (client a) k))"
  using live_ttl [of "client a" "GuildTokenLock g h"] live_later [OF Second_pos, of "now (client a)"]
  by (simp add: admit_healthy [OF assms] Let_def counter_def ttl_def lookup_put)

theorem admit_contract_witness:
  "healthy (client (api0 7 [])) \<and>
   counter (client (api0 7 [])) (GuildTokenLock ''100'' ''h1'') < INT64_MAX \<and>
   (let k = GuildTokenLock ''100'' ''h1'';
        (b, a') = IncrAndTestGuildTokenComboLock (api0 7 []) ''100'' ''h1''
    in counter (client a') k = 1 \<and> b \<and> ttl (client a') k = Some 5000000000)"
proof -
  have c0: "counter (client (api0 7 [])) (GuildTokenLock ''100'' ''h1'') = 0"
    and t0: "ttl (client (api0 7 [])) (GuildTokenLock ''100'' ''h1'') = None"
    by (simp_all add: api0_def store0_def counter_def ttl_def lookup_def)
  have h1: "healthy (client (api0 7 []))"
    by (simp add: api0_def store0_def healthy_def)
  have h2: "counter (client (api0 7 [])) (GuildTokenLock ''100'' ''h1'') < INT64_MAX"
    by (simp add: c0 INT64_MAX_def)
  have m: "maxRequests5Seconds (api0 7 []) = 7" and n: "now (client (api0 7 [])) = 0"
    by (simp_all add: api0_def store0_def)
  show ?thesis
    using admit_contract [OF h1 h2] h1 h2
    by (simp add: c0 t0 m n Let_def Second_def Millisecond_def split_beta)
qed

lemmas eval_defs = api0_def store0_def Incr_def Expire_def Set_cmd_def next_fault_def consume_def
  formatSec_def formatMs_def usePrecise_def sent_ttl_def quot_def
  IncrAndTestGuildTokenComboLock_def BlacklistTokenForDuration_def lookup_def live_def put_def
  del_def log_err_def advance_def counter_def ttl_def healthy_def INT64_MAX_def Second_def
  Millisecond_def Minute_def

lemma live_mono: "t \<le> t' \<Longrightarrow> live t' e \<Longrightarrow> live t e"
  by (cases e) (auto simp: live_def)

lemma lookup_advance:
  "live (now s + dt) (ttl s k) \<Longrightarrow> lookup (advance dt s) k = lookup s k"
  by (cases "strings s k")
     (auto simp: lookup_def advance_def ttl_def live_def split: option.splits)

lemma counter_advance:
  "live (now s + dt) (ttl s k) \<Longrightarrow> counter (advance dt s) k = counter s k"
  by (simp add: counter_def lookup_advance)

lemma ttl_advance:
  "live (now s + dt) (ttl s k) \<Longrightarrow> ttl (advance dt s) k = ttl s k"
  by (simp add: ttl_def lookup_advance)

lemma now_advance [simp]: "now (advance dt s) = now s + dt"
  by (simp add: advance_def)

text \<open>One admission after a pause, on a store that executes its commands.\<close>

lemma admit_step:
  assumes hl: "healthy (client a)"
    and lv: "live (now (client a) + dt) (ttl (client a) k)"
    and k: "k = GuildTokenLock g h"
    and c: "counter (client a) k < INT64_MAX"
    and r: "IncrAndTestGuildTokenComboLock (a\<lparr>client := advance dt (client a)\<rparr>) g h = (b, a1)"
  shows "b = (counter (client a) k + 1 < maxRequests5Seconds a)
    \<and> healthy (client a1)
    \<and> counter (client a1) k = counter (client a) k + 1
    \<and> ttl (client a1) k = (if b then Some (now (client a) + dt + nat (Second * 5)) else ttl (client a) k)
    \<and> now (client a1) = now (client a) + dt
    \<and> maxRequests5Seconds a1 = maxRequests5Seconds a"
proof -
  let ?a = "a\<lparr>client := advance dt (client a)\<rparr>"
  have h': "healthy (client ?a)" using hl by simp
  have cc: "counter (advance dt (client a)) k = counter (client a) k"
    and tt: "ttl (advance dt (client a)) k = ttl (client a) k"
    using lv by (simp_all add: counter_advance ttl_advance)
  have c': "counter (client ?a) (GuildTokenLock g h) < INT64_MAX"
    using c cc k by simp
  have lt: "live (now (client a) + dt) (ttl (client a) k)" by (rule lv)
  have l5: "live (now (client a) + dt) (Some (now (client a) + dt + nat (Second * 5)))"
    by (rule live_later [OF Second_pos])
  show ?thesis
    using r lt l5 hl cc tt unfolding admit_healthy [OF h' c'] k
    by (auto simp: Let_def counter_def ttl_def lookup_put healthy_consume split: if_splits)
qed

lemma sum_tail: "sum_list (dt # dts) < n \<Longrightarrow> sum_list dts < (n::nat)"
  by simp

lemma burst_bound:
  assumes "healthy (client a)"
    and "live (now (client a) + sum_list dts) (ttl (client a) (GuildTokenLock g h))"
    and "sum_list dts < nat (Second * 5)"
    and "counter (client a) (GuildTokenLock g h) + int (length dts) \<le> INT64_MAX"
  shows "int (count_list (fst (admits a g h dts)) True)
           \<le> max 0 (maxRequests5Seconds a - 1 - counter (client a) (GuildTokenLock g h))"
  using assms
proof (induction dts arbitrary: a)
  case Nil
  then show ?case by simp
next
  case (Cons dt dts)
  let ?k = "GuildTokenLock g h"
  obtain b a1 where r: "IncrAndTestGuildTokenComboLock (a\<lparr>client := advance dt (client a)\<rparr>) g h = (b, a1)"
    by (cases "IncrAndTestGuildTokenComboLock (a\<lparr>client := advance dt (client a)\<rparr>) g h")
  have lv: "live (now (client a) + dt) (ttl (client a) ?k)"
    using Cons.prems(2) by (rule live_mono [rotated]) simp
  have c: "counter (client a) ?k < INT64_MAX" using Cons.prems(4) by simp
  note st = admit_step [OF Cons.prems(1) lv refl c r]
  have lv1: "live (now (client a1) + sum_list dts) (ttl (client a1) ?k)"
  proof (cases b)
    case True
    then show ?thesis using st Cons.prems(3) by (simp add: live_def)
  next
    case False
    then show ?thesis using st Cons.prems(2) by (simp add: add.assoc)
  qed
  have ih: "int (count_list (fst (admits a1 g h dts)) True)
           \<le> max 0 (maxRequests5Seconds a1 - 1 - counter (client a1) ?k)"
    using st lv1 Cons.prems(3,4) by (intro Cons.IH) simp_all
  show ?case using ih st r by (auto simp: split_beta)
qed

lemma blocked_all:
  assumes "healthy (client a)"
    and "live (now (client a) + sum_list dts) (ttl (client a) (GuildTokenLock g h))"
    and "maxRequests5Seconds a \<le> counter (client a) (GuildTokenLock g h)"
    and "counter (client a) (GuildTokenLock g h) + int (length dts) \<le> INT64_MAX"
  shows "fst (admits a g h dts) = replicate (length dts) False"
  using assms
proof (induction dts arbitrary: a)
  case Nil
  then show ?case by simp
next
  case (Cons dt dts)
  let ?k = "GuildTokenLock g h"
  obtain b a1 where r: "IncrAndTestGuildTokenComboLock (a\<lparr>client := advance dt (client a)\<rparr>) g h = (b, a1)"
    by (cases "IncrAndTestGuildTokenComboLock (a\<lparr>client := advance dt (client a)\<rparr>) g h")
  have lv: "live (now (client a) + dt) (ttl (client a) ?k)"
    using Cons.prems(2) by (rule live_mono [rotated]) simp
  have c: "counter (client a) ?k < INT64_MAX" using Cons.prems(4) by simp
  note st = admit_step [OF Cons.prems(1) lv refl c r]
  have b: "\<not> b" using st Cons.prems(3) by simp
  have lv1: "live (now (client a1) + sum_list dts) (ttl (client a1) ?k)"
    using b st Cons.prems(2) by (simp add: add.assoc)
  have ih: "fst (admits a1 g h dts) = replicate (length dts) False"
    using st lv1 Cons.prems(3,4) by (intro Cons.IH) simp_all
  show ?case using ih b r by (simp add: split_beta)
qed


text \<open>
  C5 (as amended). A burst of admissions of one pair on a store that executes its commands,
  the counter absent at the start, all calls within less than five seconds: the number of
  true results is at most \<open>max 0 (maxRequests5Seconds - 1)\<close>. (The burst is shorter than
  the range of the 64-bit counter.)
\<close>

theorem burst_bound_amended:
  assumes "healthy (client a)"
    and "lookup (client a) (GuildTokenLock g h) = None"
    and "sum_list dts < nat (Second * 5)"
    and "int (length dts) \<le> INT64_MAX"
  shows "int (count_list (fst (admits a g h dts)) True) \<le> max 0 (maxRequests5Seconds a - 1)"
proof -
  have c: "counter (client a) (GuildTokenLock g h) = 0"
    and t: "ttl (client a) (GuildTokenLock g h) = None"
    using assms(2) by (simp_all add: counter_def ttl_def)
  have "int (count_list (fst (admits a g h dts)) True)
          \<le> max 0 (maxRequests5Seconds a - 1 - counter (client a) (GuildTokenLock g h))"
    using assms by (intro burst_bound) (simp_all add: c t live_def)
  then show ?thesis by (simp add: c)
qed

theorem burst_bound_amended_witness:
  "healthy (client (api0 3 [])) \<and>
   lookup (client (api0 3 [])) (GuildTokenLock ''100'' ''h1'') = None \<and>
   sum_list [0, 1000, 2000, 0] < nat (Second * 5) \<and>
   int (length [0, 1000, 2000, 0 :: nat]) \<le> INT64_MAX \<and>
   int (count_list (fst (admits (api0 3 []) ''100'' ''h1'' [0, 1000, 2000, 0])) True)
     \<le> max 0 (maxRequests5Seconds (api0 3 []) - 1)"
proof -
  have h1: "healthy (client (api0 3 []))" by (simp add: eval_defs)
  have h2: "lookup (client (api0 3 [])) (GuildTokenLock ''100'' ''h1'') = None"
    by (simp add: eval_defs)
  have h3: "sum_list [0, 1000, 2000, 0] < nat (Second * 5)" by (simp add: eval_defs)
  have h4: "int (length [0, 1000, 2000, 0 :: nat]) \<le> INT64_MAX" by (simp add: eval_defs)
  show ?thesis using burst_bound_amended [OF h1 h2 h3 h4] h1 h2 h3 h4 by blast
qed

text \<open>
  The bound \<open>maxRequests5Seconds - 1\<close> itself fails when \<open>maxRequests5Seconds\<close> is 0: one
  call returns false, so no call returns true, and 0 is not at most -1.
\<close>

theorem burst_bound_counterexample:
  "healthy (client (api0 0 [])) \<and>
   lookup (client (api0 0 [])) (GuildTokenLock ''100'' ''h1'') = None \<and>
   \<not> int (count_list (fst (admits (api0 0 []) ''100'' ''h1'' [0])) True)
       \<le> maxRequests5Seconds (api0 0 []) - 1"
  by (simp add: eval_defs Let_def)

text \<open>
  C6 (as amended). When \<open>Incr\<close> returns an error inside
  \<open>IncrAndTestGuildTokenComboLock\<close>, the count compared is 0 and the call returns true
  exactly when \<open>maxRequests5Seconds\<close> is positive.
\<close>

theorem admit_on_store_error:
  assumes "fst (Incr (client a) (GuildTokenLock g h)) = Inl e"
  shows "fst (IncrAndTestGuildTokenComboLock a g h) = (0 < maxRequests5Seconds a)"
  using assms
  by (cases "Incr (client a) (GuildTokenLock g h)")
     (simp add: IncrAndTestGuildTokenComboLock_def Let_def split_beta)

theorem admit_on_store_error_witness:
  "fst (Incr (client (api0 7 [True])) (GuildTokenLock ''100'' ''h1'')) = Inl ConnFault \<and>
   fst (IncrAndTestGuildTokenComboLock (api0 7 [True]) ''100'' ''h1'') = True"
proof -
  have h: "fst (Incr (client (api0 7 [True])) (GuildTokenLock ''100'' ''h1'')) = Inl ConnFault"
    by (simp add: eval_defs)
  show ?thesis using admit_on_store_error [OF h] h by (simp add: api0_def)
qed

text \<open>
  With \<open>maxRequests5Seconds = 0\<close> a failed \<open>Incr\<close> is not admitted: the call returns false.
\<close>

theorem admit_on_store_error_counterexample:
  "fst (Incr (client (api0 0 [True])) (GuildTokenLock ''100'' ''h1'')) = Inl ConnFault \<and>
   fst (IncrAndTestGuildTokenComboLock (api0 0 [True]) ''100'' ''h1'') = False"
  by (simp add: eval_defs Let_def)

lemma Set_healthy:
  assumes "healthy s" and "0 < d"
  shows "Set_cmd s k v d = (None, put (consume s) k (v, Some (now s + nat (sent_ttl d))))"
  using assms by (simp add: Set_cmd_def healthy_next_fault)

text \<open>What the store receives for a positive expiration: whole milliseconds, at least one.\<close>

lemma sent_ttl_eq:
  assumes "0 < d"
  shows "sent_ttl d = (if d < Millisecond then Millisecond else (d div Millisecond) * Millisecond)"
proof (cases "usePrecise d")
  case True
  then show ?thesis using assms
    by (simp add: sent_ttl_def formatMs_def quot_def)
next
  case False
  then have ge: "Second \<le> d" and m: "d = d div Second * Second"
    using assms by (simp_all add: usePrecise_def quot_def)
  from m obtain q where q: "d = Second * q" by (metis mult.commute)
  have s: "formatSec d * Second = d"
    using ge assms q by (simp add: formatSec_def quot_def Second_def Millisecond_def)
  have ms: "(d div Millisecond) * Millisecond = d"
    using q by (simp add: Second_def Millisecond_def)
  have "\<not> d < Millisecond" using ge by (simp add: Second_def Millisecond_def)
  then show ?thesis using False s ms by (simp add: sent_ttl_def)
qed

lemma sent_ttl_pos: "0 < d \<Longrightarrow> 0 < sent_ttl d"
  by (auto simp: sent_ttl_eq Millisecond_def pos_imp_zdiv_pos_iff)

lemma lookup_expired:
  "lookup s k = Some (v, Some t) \<Longrightarrow> t \<le> now s + dt \<Longrightarrow> lookup (advance dt s) k = None"
  by (auto simp: lookup_def advance_def live_def split: option.splits if_splits)

text \<open>
  C4 (as amended). \<open>BlacklistTokenForDuration\<close> with a positive duration, on a store that
  executes its commands: the counter of the pair holds \<open>maxRequests5Seconds\<close> and its time to
  live is the duration rounded down to whole milliseconds, one millisecond at least;
  every admission of the pair before that time has passed returns false (for as many
  admissions as the 64-bit counter can count), and when it has passed the counter is
  absent again. \<open>UnresponsiveCaptureBlacklistDuration\<close> is five minutes and is stored as it
  is: this is the state the capture bridge leaves after a timeout.
\<close>

theorem blacklist_blocks:
  assumes "healthy (client a)"
    and "0 < d"
    and "sum_list dts < nat (sent_ttl d)"
    and "maxRequests5Seconds a + int (length dts) \<le> INT64_MAX"
  shows "(let k = GuildTokenLock g h;
              (e, a1) = BlacklistTokenForDuration a g h d
          in e = None \<and>
             lookup (client a1) k =
               Some (maxRequests5Seconds a, Some (now (client a) + nat (sent_ttl d))) \<and>
             fst (admits a1 g h dts) = replicate (length dts) False \<and>
             lookup (advance (nat (sent_ttl d)) (client a1)) k = None \<and>
             sent_ttl d = (if d < Millisecond then Millisecond else (d div Millisecond) * Millisecond) \<and>
             (d = UnresponsiveCaptureBlacklistDuration \<longrightarrow>
                sent_ttl d = 5 * 60 * 1000000000 \<and> captureOutcome a g h False = (False, a1)))"
proof -
  let ?k = "GuildTokenLock g h"
  let ?s1 = "put (consume (client a)) ?k (maxRequests5Seconds a, Some (now (client a) + nat (sent_ttl d)))"
  let ?a1 = "a\<lparr>client := ?s1\<rparr>"
  have pos: "0 < sent_ttl d" using assms(2) by (rule sent_ttl_pos)
  have b: "BlacklistTokenForDuration a g h d = (None, ?a1)"
    by (simp add: BlacklistTokenForDuration_def Set_healthy [OF assms(1,2)])
  have l: "lookup ?s1 ?k = Some (maxRequests5Seconds a, Some (now (client a) + nat (sent_ttl d)))"
    using pos by (simp add: lookup_put live_def)
  have c: "counter ?s1 ?k = maxRequests5Seconds a"
    and t: "ttl ?s1 ?k = Some (now (client a) + nat (sent_ttl d))"
    using l by (simp_all add: counter_def ttl_def)
  have blk: "fst (admits ?a1 g h dts) = replicate (length dts) False"
    using assms by (intro blocked_all) (simp_all add: c t live_def healthy_consume)
  have ex: "lookup (advance (nat (sent_ttl d)) ?s1) ?k = None"
    using l by (rule lookup_expired) simp
  have cap: "d = UnresponsiveCaptureBlacklistDuration \<longrightarrow>
                sent_ttl d = 5 * 60 * 1000000000 \<and> captureOutcome a g h False = (False, ?a1)"
    using b by (auto simp: captureOutcome_def UnresponsiveCaptureBlacklistDuration_def
        sent_ttl_eq Minute_def Second_def Millisecond_def)
  have eq: "sent_ttl d = (if d < Millisecond then Millisecond else (d div Millisecond) * Millisecond)"
    by (rule sent_ttl_eq [OF assms(2)])
  have l': "lookup (client ?a1) ?k =
      Some (maxRequests5Seconds a, Some (now (client a) + nat (sent_ttl d)))"
    using l by simp
  have ex': "lookup (advance (nat (sent_ttl d)) (client ?a1)) ?k = None"
    using ex by simp
  show ?thesis
    unfolding Let_def b prod.case by (intro conjI refl l' blk ex' eq cap)
qed

theorem blacklist_blocks_witness:
  "healthy (client (api0 7 [])) \<and>
   0 < UnresponsiveCaptureBlacklistDuration \<and>
   sum_list [0, 1000000000, 298000000000] < nat (sent_ttl UnresponsiveCaptureBlacklistDuration) \<and>
   maxRequests5Seconds (api0 7 []) + int (length [0, 1000000000, 298000000000 :: nat]) \<le> INT64_MAX \<and>
   (let a1 = snd (captureOutcome (api0 7 []) ''100'' ''capture'' False)
    in lookup (client a1) (GuildTokenLock ''100'' ''capture'') = Some (7, Some 300000000000) \<and>
       fst (admits a1 ''100'' ''capture'' [0, 1000000000, 298000000000]) = [False, False, False])"
proof -
  have h1: "healthy (client (api0 7 []))" by (simp add: eval_defs)
  have h2: "0 < UnresponsiveCaptureBlacklistDuration"
    by (simp add: UnresponsiveCaptureBlacklistDuration_def eval_defs)
  have d: "sent_ttl UnresponsiveCaptureBlacklistDuration = 300000000000"
    by (simp add: UnresponsiveCaptureBlacklistDuration_def eval_defs)
  have h3: "sum_list [0, 1000000000, 298000000000] < nat (sent_ttl UnresponsiveCaptureBlacklistDuration)"
    by (simp add: d)
  have h4: "maxRequests5Seconds (api0 7 []) + int (length [0, 1000000000, 298000000000 :: nat]) \<le> INT64_MAX"
    by (simp add: eval_defs)
  have m: "maxRequests5Seconds (api0 7 []) = 7" "now (client (api0 7 [])) = 0"
    by (simp_all add: api0_def store0_def)
  show ?thesis
    using blacklist_blocks [OF h1 h2 h3 h4, of "''100''" "''capture''"] h1 h2 h3 h4
    by (simp add: Let_def split_beta m d)
qed

text \<open>
  The time to live is not always the duration given: with 1999999 ns the store receives
  one millisecond, and an admission 1500000 ns after the blacklist, before the duration
  has passed, returns true.
\<close>

theorem blacklist_counterexample:
  "healthy (client (api0 7 [])) \<and> (0::int) < 1999999 \<and>
   sum_list [1500000] < nat 1999999 \<and>
   maxRequests5Seconds (api0 7 []) + int (length [1500000 :: nat]) \<le> INT64_MAX \<and>
   fst (BlacklistTokenForDuration (api0 7 []) ''100'' ''h1'' 1999999) = None \<and>
   fst (admits (snd (BlacklistTokenForDuration (api0 7 []) ''100'' ''h1'' 1999999))
          ''100'' ''h1'' [1500000]) = [True]"
  by (simp add: eval_defs Let_def)

section \<open>Facts about the session loop\<close>

lemma attempted_append [simp]: "attempted (xs @ ys) = attempted xs @ attempted ys"
  by (induction xs rule: attempted.induct) simp_all

lemma admitted_append [simp]: "admitted (xs @ ys) = admitted xs @ admitted ys"
  by (induction xs rule: admitted.induct) simp_all

lemma attempted_log_err [simp]: "attempted (log_err e) = []" "admitted (log_err e) = []"
  by (cases e; simp add: log_err_def)+

lemma Incr_frame:
  "sets (snd (Incr s k)) = sets s"
  "now (snd (Incr s k)) = now s"
  "healthy s \<Longrightarrow> healthy (snd (Incr s k))"
  "k' \<noteq> k \<Longrightarrow> lookup (snd (Incr s k)) k' = lookup s k'"
  by (auto simp: Incr_def healthy_consume lookup_put split: option.splits)

lemma del_fields [simp]:
  "now (del s k) = now s" "faults (del s k) = faults s" "sets (del s k) = sets s"
  by (simp_all add: del_def)

lemma healthy_del [simp]: "healthy (del s k) = healthy s"
  by (simp add: healthy_def)

lemma lookup_del: "lookup (del s k) k' = (if k' = k then None else lookup s k')"
  by (simp add: lookup_def del_def split: option.splits)

lemma Expire_frame:
  "sets (snd (Expire s k d)) = sets s"
  "now (snd (Expire s k d)) = now s"
  "healthy s \<Longrightarrow> healthy (snd (Expire s k d))"
  "k' \<noteq> k \<Longrightarrow> lookup (snd (Expire s k d)) k' = lookup s k'"
  by (auto simp: Expire_def healthy_consume lookup_put lookup_del split: option.splits)

lemma SRem_frame:
  "now (snd (SRem s k m)) = now s"
  "healthy s \<Longrightarrow> healthy (snd (SRem s k m))"
  "lookup (snd (SRem s k m)) k' = lookup s k'"
  "healthy s \<Longrightarrow> sets (snd (SRem s k m)) = (sets s)(k := removeAll m (sets s k))"
  by (auto simp: SRem_def healthy_consume healthy_next_fault)

lemma admit_frame:
  "attempted (out (snd (IncrAndTestGuildTokenComboLock a g h))) = attempted (out a) @ [h]"
  "admitted (out (snd (IncrAndTestGuildTokenComboLock a g h))) =
     admitted (out a) @ (if fst (IncrAndTestGuildTokenComboLock a g h) then [h] else [])"
  "activeSessions (snd (IncrAndTestGuildTokenComboLock a g h)) = activeSessions a"
  "maxRequests5Seconds (snd (IncrAndTestGuildTokenComboLock a g h)) = maxRequests5Seconds a"
  "sets (client (snd (IncrAndTestGuildTokenComboLock a g h))) = sets (client a)"
  "now (client (snd (IncrAndTestGuildTokenComboLock a g h))) = now (client a)"
  "healthy (client a) \<Longrightarrow> healthy (client (snd (IncrAndTestGuildTokenComboLock a g h)))"
  "k' \<noteq> GuildTokenLock g h \<Longrightarrow>
     lookup (client (snd (IncrAndTestGuildTokenComboLock a g h))) k' = lookup (client a) k'"
  by (auto simp: IncrAndTestGuildTokenComboLock_def Let_def split_beta Incr_frame Expire_frame
      split: sum.splits)

lemma range_attempts:
  "\<exists>n. (i \<le> limit \<longrightarrow> int n \<le> limit - i) \<and>
       attempted (out (snd (getAnySession_range a g limit i tokens))) =
         attempted (out a) @ take n tokens"
proof (induction tokens arbitrary: a i)
  case Nil
  show ?case by (intro exI [of _ 0]) simp
next
  case (Cons h rest)
  show ?case
  proof (cases "i = limit")
    case True
    then show ?thesis by (intro exI [of _ 0]) simp
  next
    case ne: False
    obtain b a1 where r: "IncrAndTestGuildTokenComboLock a g h = (b, a1)"
      by (cases "IncrAndTestGuildTokenComboLock a g h")
    have att1: "attempted (out a1) = attempted (out a) @ [h]"
      using admit_frame(1) [of a g h] r by simp
    show ?thesis
    proof (cases "b \<and> activeSessions a1 h \<noteq> None")
      case True
      then show ?thesis using ne r att1
        by (intro exI [of _ 1]) auto
    next
      case False
      define a2 where "a2 = (if b then a1\<lparr>client := snd (SRem (client a1) (GuildTokensKey g) h)\<rparr>
                             else a1\<lparr>out := out a1 @ [LogSkipping]\<rparr>)"
      have step: "getAnySession_range a g limit i (h # rest) = getAnySession_range a2 g limit (i + 1) rest"
        using ne r False by (auto simp: a2_def split_beta)
      have att2: "attempted (out a2) = attempted (out a) @ [h]"
        using att1 by (simp add: a2_def)
      from Cons.IH [where a = a2 and i = "i + 1"] obtain m where
        m: "i + 1 \<le> limit \<longrightarrow> int m \<le> limit - (i + 1)"
        and am: "attempted (out (snd (getAnySession_range a2 g limit (i + 1) rest))) =
                   attempted (out a2) @ take m rest"
        by blast
      show ?thesis
        using m am att2 ne unfolding step
        by (intro exI [of _ "Suc m"]) auto
    qed
  qed
qed

lemma range_Cons_hit:
  assumes "i \<noteq> limit" and "fst (IncrAndTestGuildTokenComboLock a g h)"
    and "activeSessions a h = Some sess"
  shows "getAnySession_range a g limit i (h # rest) =
           ((Some sess, h), snd (IncrAndTestGuildTokenComboLock a g h))"
  using assms admit_frame(3) [of a g h]
  by (cases "IncrAndTestGuildTokenComboLock a g h") simp

lemma range_Cons_miss:
  assumes "i \<noteq> limit"
    and "\<not> fst (IncrAndTestGuildTokenComboLock a g h) \<or> activeSessions a h = None"
  shows "getAnySession_range a g limit i (h # rest) =
           getAnySession_range (after_miss a g h) g limit (i + 1) rest"
  using assms admit_frame(3) [of a g h]
  by (cases "IncrAndTestGuildTokenComboLock a g h") (auto simp: after_miss_def split_beta)

lemma range_Cons_limit [simp]:
  "getAnySession_range a g limit limit (h # rest) = ((None, []), a)"
  by simp

declare getAnySession_range.simps(2) [simp del]

lemma after_miss_frame:
  "attempted (out (after_miss a g h)) = attempted (out a) @ [h]"
  "admitted (out (after_miss a g h)) =
     admitted (out a) @ (if fst (IncrAndTestGuildTokenComboLock a g h) then [h] else [])"
  "activeSessions (after_miss a g h) = activeSessions a"
  "maxRequests5Seconds (after_miss a g h) = maxRequests5Seconds a"
  "now (client (after_miss a g h)) = now (client a)"
  "healthy (client a) \<Longrightarrow> healthy (client (after_miss a g h))"
  "lookup (client (after_miss a g h)) k = lookup (client (snd (IncrAndTestGuildTokenComboLock a g h))) k"
  "set (sets (client (after_miss a g h)) k') \<subseteq> set (sets (client a) k')"
  "healthy (client a) \<Longrightarrow> fst (IncrAndTestGuildTokenComboLock a g h) \<Longrightarrow>
     h \<notin> set (sets (client (after_miss a g h)) (GuildTokensKey g))"
  using admit_frame(1-7) [of a g h]
  by (auto simp: after_miss_def split_beta SRem_def healthy_consume healthy_next_fault)

lemma range_frame:
  "now (client (snd (getAnySession_range a g limit i tokens))) = now (client a) \<and>
   activeSessions (snd (getAnySession_range a g limit i tokens)) = activeSessions a \<and>
   (healthy (client a) \<longrightarrow> healthy (client (snd (getAnySession_range a g limit i tokens)))) \<and>
   set (sets (client (snd (getAnySession_range a g limit i tokens))) k') \<subseteq> set (sets (client a) k') \<and>
   (\<forall>h. h \<notin> set tokens \<longrightarrow>
      lookup (client (snd (getAnySession_range a g limit i tokens))) (GuildTokenLock g h) =
      lookup (client a) (GuildTokenLock g h))"
proof (induction tokens arbitrary: a i)
  case Nil
  show ?case by simp
next
  case (Cons t rest)
  show ?case
  proof (cases "i = limit")
    case True
    then show ?thesis by simp
  next
    case ne: False
    show ?thesis
    proof (cases "fst (IncrAndTestGuildTokenComboLock a g t) \<and> activeSessions a t \<noteq> None")
      case True
      then obtain sess where s: "activeSessions a t = Some sess" by auto
      from True have hit: "fst (IncrAndTestGuildTokenComboLock a g t)" by simp
      show ?thesis
        unfolding range_Cons_hit [OF ne hit s]
        using admit_frame [where a = a and g = g and h = t] by simp
    next
      case False
      then have m: "\<not> fst (IncrAndTestGuildTokenComboLock a g t) \<or> activeSessions a t = None"
        by simp
      note ih = Cons.IH [where a = "after_miss a g t" and i = "i + 1"]
      show ?thesis
        unfolding range_Cons_miss [OF ne m]
        using ih after_miss_frame [where a = a and g = g and h = t] admit_frame(8) [where a = a and g = g and h = t]
        by (auto simp: subset_iff)
    qed
  qed
qed

lemma admit_effect:
  assumes "healthy (client a)" and "counter (client a) (GuildTokenLock g h) < INT64_MAX"
  shows "fst (IncrAndTestGuildTokenComboLock a g h) =
           (counter (client a) (GuildTokenLock g h) + 1 < maxRequests5Seconds a)"
    and "counter (client (snd (IncrAndTestGuildTokenComboLock a g h))) (GuildTokenLock g h) =
           counter (client a) (GuildTokenLock g h) + 1"
    and "ttl (client (snd (IncrAndTestGuildTokenComboLock a g h))) (GuildTokenLock g h) =
           (if fst (IncrAndTestGuildTokenComboLock a g h)
            then Some (now (client a) + nat (Second * 5))
            else ttl (client a) (GuildTokenLock g h))"
  using live_ttl [of "client a" "GuildTokenLock g h"] live_later [OF Second_pos, of "now (client a)"]
  by (simp_all add: admit_healthy [OF assms] Let_def counter_def ttl_def lookup_put)

lemma range_stale:
  assumes "healthy (client a)"
  shows "\<exists>adm. admitted (out (snd (getAnySession_range a g limit i tokens))) = admitted (out a) @ adm \<and>
      (\<forall>h\<in>set adm. activeSessions a h = None \<longrightarrow>
          h \<notin> set (sets (client (snd (getAnySession_range a g limit i tokens))) (GuildTokensKey g))) \<and>
      (\<forall>sess. fst (fst (getAnySession_range a g limit i tokens)) = Some sess \<longrightarrow>
          activeSessions a (snd (fst (getAnySession_range a g limit i tokens))) = Some sess \<and>
          snd (fst (getAnySession_range a g limit i tokens)) \<in> set adm) \<and>
      (fst (fst (getAnySession_range a g limit i tokens)) = None \<and> i \<le> limit \<longrightarrow>
          attempted (out (snd (getAnySession_range a g limit i tokens))) =
            attempted (out a) @ take (nat (limit - i)) tokens)"
  using assms
proof (induction tokens arbitrary: a i)
  case Nil
  show ?case by (intro exI [of _ "[]"]) simp
next
  case (Cons t rest)
  show ?case
  proof (cases "i = limit")
    case True
    then show ?thesis by (intro exI [of _ "[]"]) simp
  next
    case ne: False
    show ?thesis
    proof (cases "fst (IncrAndTestGuildTokenComboLock a g t) \<and> activeSessions a t \<noteq> None")
      case True
      then obtain sess where s: "activeSessions a t = Some sess" by auto
      from True have hit: "fst (IncrAndTestGuildTokenComboLock a g t)" by simp
      show ?thesis
        unfolding range_Cons_hit [OF ne hit s]
        using admit_frame(2) [where a = a and g = g and h = t] hit s
        by (intro exI [of _ "[t]"]) simp
    next
      case False
      then have m: "\<not> fst (IncrAndTestGuildTokenComboLock a g t) \<or> activeSessions a t = None"
        by simp
      let ?a2 = "after_miss a g t"
      let ?res = "getAnySession_range ?a2 g limit (i + 1) rest"
      note fr = after_miss_frame [where a = a and g = g and h = t]
      have h2: "healthy (client ?a2)" using Cons.prems fr(6) by simp
      from Cons.IH [where a = ?a2 and i = "i + 1", OF h2] obtain adm where
        a1: "admitted (out (snd ?res)) = admitted (out ?a2) @ adm"
        and a2: "\<forall>h\<in>set adm. activeSessions ?a2 h = None \<longrightarrow>
                   h \<notin> set (sets (client (snd ?res)) (GuildTokensKey g))"
        and a3: "\<forall>sess. fst (fst ?res) = Some sess \<longrightarrow>
                   activeSessions ?a2 (snd (fst ?res)) = Some sess \<and> snd (fst ?res) \<in> set adm"
        and a4: "fst (fst ?res) = None \<and> i + 1 \<le> limit \<longrightarrow>
                   attempted (out (snd ?res)) = attempted (out ?a2) @ take (nat (limit - (i + 1))) rest"
        by blast
      have sub: "set (sets (client (snd ?res)) (GuildTokensKey g))
                   \<subseteq> set (sets (client ?a2) (GuildTokensKey g))"
        using range_frame [of ?a2 g limit "i + 1" rest "GuildTokensKey g"] by simp
      let ?adm = "(if fst (IncrAndTestGuildTokenComboLock a g t) then [t] else []) @ adm"
      have c1: "admitted (out (snd ?res)) = admitted (out a) @ ?adm"
        using a1 fr(2) by simp
      have c2: "\<forall>h\<in>set ?adm. activeSessions a h = None \<longrightarrow>
                  h \<notin> set (sets (client (snd ?res)) (GuildTokensKey g))"
        using a2 fr(3) fr(9) [OF Cons.prems] sub by auto
      have c3: "\<forall>sess. fst (fst ?res) = Some sess \<longrightarrow>
                  activeSessions a (snd (fst ?res)) = Some sess \<and> snd (fst ?res) \<in> set ?adm"
        using a3 fr(3) by simp
      have tk: "take (nat (limit - i)) (t # rest) = t # take (nat (limit - (i + 1))) rest"
        if "i \<le> limit"
      proof -
        have "nat (limit - i) = Suc (nat (limit - (i + 1)))" using ne that by simp
        then show ?thesis by simp
      qed
      have c4: "fst (fst ?res) = None \<and> i \<le> limit \<longrightarrow>
                  attempted (out (snd ?res)) = attempted (out a) @ take (nat (limit - i)) (t # rest)"
        using a4 fr(1) tk ne by auto
      show ?thesis
        unfolding range_Cons_miss [OF ne m]
        using c1 c2 c3 c4 by (intro exI [of _ ?adm]) blast
    qed
  qed
qed

lemma counter_cong: "lookup s k = lookup s' k \<Longrightarrow> counter s k = counter s' k"
  by (simp add: counter_def)

lemma ttl_cong: "lookup s k = lookup s' k \<Longrightarrow> ttl s k = ttl s' k"
  by (simp add: ttl_def)

lemma range_counters:
  assumes "healthy (client a)"
    and "distinct tokens"
    and "\<forall>h\<in>set tokens. counter (client a) (GuildTokenLock g h) < INT64_MAX"
  shows "\<exists>n adm.
      attempted (out (snd (getAnySession_range a g limit i tokens))) = attempted (out a) @ take n tokens \<and>
      admitted (out (snd (getAnySession_range a g limit i tokens))) = admitted (out a) @ adm \<and>
      (\<forall>h. counter (client (snd (getAnySession_range a g limit i tokens))) (GuildTokenLock g h) =
             counter (client a) (GuildTokenLock g h) + (if h \<in> set (take n tokens) then 1 else 0)) \<and>
      (\<forall>h\<in>set adm. ttl (client (snd (getAnySession_range a g limit i tokens))) (GuildTokenLock g h) =
             Some (now (client a) + nat (Second * 5)))"
  using assms
proof (induction tokens arbitrary: a i)
  case Nil
  show ?case by (intro exI [of _ 0] exI [of _ "[]"]) simp
next
  case (Cons t rest)
  let ?k = "GuildTokenLock g t"
  let ?r = "IncrAndTestGuildTokenComboLock a g t"
  have c: "counter (client a) ?k < INT64_MAX" using Cons.prems(3) by simp
  note ef = admit_effect [OF Cons.prems(1) c]
  have other: "lookup (client (snd ?r)) (GuildTokenLock g h) = lookup (client a) (GuildTokenLock g h)"
    if "h \<noteq> t" for h
    using that by (intro admit_frame(8)) simp
  show ?case
  proof (cases "i = limit")
    case True
    then show ?thesis by (intro exI [of _ 0] exI [of _ "[]"]) simp
  next
    case ne: False
    show ?thesis
    proof (cases "fst ?r \<and> activeSessions a t \<noteq> None")
      case True
      then obtain sess where s: "activeSessions a t = Some sess" by auto
      from True have hit: "fst ?r" by simp
      have cnt: "counter (client (snd ?r)) (GuildTokenLock g h) =
             counter (client a) (GuildTokenLock g h) + (if h \<in> set (take 1 (t # rest)) then 1 else 0)" for h
        using ef(2) other [of h] by (cases "h = t") (simp_all add: counter_def)
      show ?thesis
        unfolding range_Cons_hit [OF ne hit s]
        using admit_frame(1,2) [where a = a and g = g and h = t] hit ef(3) cnt
        by (intro exI [of _ 1] exI [of _ "[t]"]) simp
    next
      case False
      then have m: "\<not> fst ?r \<or> activeSessions a t = None"
        by simp
      let ?a2 = "after_miss a g t"
      let ?res = "getAnySession_range ?a2 g limit (i + 1) rest"
      note fr = after_miss_frame [where a = a and g = g and h = t]
      have h2: "healthy (client ?a2)" using Cons.prems(1) fr(6) by simp
      have d2: "distinct rest" and tn: "t \<notin> set rest" using Cons.prems(2) by simp_all
      have l2: "lookup (client ?a2) (GuildTokenLock g h) = lookup (client a) (GuildTokenLock g h)"
        if "h \<noteq> t" for h
        using other [OF that] fr(7) by simp
      have c2: "\<forall>h\<in>set rest. counter (client ?a2) (GuildTokenLock g h) < INT64_MAX"
      proof
        fix h assume h: "h \<in> set rest"
        then have "h \<noteq> t" using tn by auto
        then have "counter (client ?a2) (GuildTokenLock g h) = counter (client a) (GuildTokenLock g h)"
          by (intro counter_cong l2)
        then show "counter (client ?a2) (GuildTokenLock g h) < INT64_MAX"
          using Cons.prems(3) h by simp
      qed
      from Cons.IH [where a = ?a2 and i = "i + 1", OF h2 d2 c2] obtain n adm where
        a1: "attempted (out (snd ?res)) = attempted (out ?a2) @ take n rest"
        and a2: "admitted (out (snd ?res)) = admitted (out ?a2) @ adm"
        and a3: "\<forall>h. counter (client (snd ?res)) (GuildTokenLock g h) =
             counter (client ?a2) (GuildTokenLock g h) + (if h \<in> set (take n rest) then 1 else 0)"
        and a4: "\<forall>h\<in>set adm. ttl (client (snd ?res)) (GuildTokenLock g h) =
             Some (now (client ?a2) + nat (Second * 5))"
        by blast
      have keep: "lookup (client (snd ?res)) ?k = lookup (client ?a2) ?k"
        using range_frame [of ?a2 g limit "i + 1" rest] tn by blast
      have tnt: "t \<notin> set (take n rest)" using tn by (auto dest: in_set_takeD)
      let ?adm = "(if fst ?r then [t] else []) @ adm"
      have b1: "attempted (out (snd ?res)) = attempted (out a) @ take (Suc n) (t # rest)"
        using a1 fr(1) by simp
      have b2: "admitted (out (snd ?res)) = admitted (out a) @ ?adm"
        using a2 fr(2) by simp
      have b3: "counter (client (snd ?res)) (GuildTokenLock g h) =
             counter (client a) (GuildTokenLock g h) + (if h \<in> set (take (Suc n) (t # rest)) then 1 else 0)" for h
      proof (cases "h = t")
        case True
        have "counter (client ?a2) ?k = counter (client (snd ?r)) ?k"
          by (intro counter_cong fr(7))
        then show ?thesis using a3 tnt True ef(2) by simp
      next
        case False
        have "counter (client ?a2) (GuildTokenLock g h) = counter (client a) (GuildTokenLock g h)"
          by (intro counter_cong l2 False)
        then show ?thesis using a3 False by simp
      qed
      have tt: "ttl (client (snd ?res)) ?k = ttl (client (snd ?r)) ?k"
        using keep fr(7) [of ?k] by (simp add: ttl_def)
      have b4: "\<forall>h\<in>set ?adm. ttl (client (snd ?res)) (GuildTokenLock g h) =
             Some (now (client a) + nat (Second * 5))"
        using a4 fr(5) tt ef(3) by auto
      show ?thesis
        unfolding range_Cons_miss [OF ne m]
        using b1 b2 b3 b4 by (intro exI [of _ "Suc n"] exI [of _ ?adm]) blast
    qed
  qed
qed

lemma between_eq:
  "attempted (out a') = attempted (out a) @ xs \<Longrightarrow> attempts_between a a' = xs"
  "admitted (out a') = admitted (out a) @ ys \<Longrightarrow> admitted_between a a' = ys"
  by (simp_all add: attempts_between_def admitted_between_def)

lemma constraint_values:
  "constraint premium =
     (if premium = 2 then 1 else if premium = 3 then 3 else if premium = 4 then 10
      else if premium = 5 then 100 else 0)"
  by (simp add: constraint_def PremiumBotConstraints_def)

lemma range_limit0: "getAnySession_range a g 0 0 tokens = ((None, []), a)"
  by (cases tokens) simp_all

text \<open>
  C3. One call of \<open>getAnySession\<close> with the limit of the batch's premium tier attempts a
  prefix of the guild's token sequence of at most \<open>limit\<close> entries; the limit is 0, 0, 1,
  3, 10, 100 for the tiers 0 to 5 and 0 for any other tier; with \<open>limit = 0\<close> the call
  returns no session and does nothing.
\<close>

theorem secondary_attempts_bounded:
  "(let limit = constraint premium;
        (r, a') = getAnySession a g tokens limit
    in (\<exists>n. int n \<le> limit \<and> attempts_between a a' = take n tokens) \<and>
       (limit = 0 \<longrightarrow> r = (None, []) \<and> a' = a)) \<and>
   constraint premium =
     (if premium = 2 then 1 else if premium = 3 then 3 else if premium = 4 then 10
      else if premium = 5 then 100 else 0)"
proof -
  let ?limit = "constraint premium"
  let ?res = "getAnySession_range a g ?limit 0 tokens"
  have nn: "0 \<le> ?limit" by (simp add: constraint_values)
  from range_attempts [of 0 ?limit a g tokens] nn obtain n where
    n: "int n \<le> ?limit" and
    a: "attempted (out (snd ?res)) = attempted (out a) @ take n tokens"
    by auto
  have b: "attempts_between a (snd ?res) = take n tokens"
    using a by (rule between_eq)
  have z: "?limit = 0 \<longrightarrow> ?res = ((None, []), a)"
    by (simp add: range_limit0)
  have "\<exists>n. int n \<le> ?limit \<and> attempts_between a (snd ?res) = take n tokens"
    using n b by blast
  then show ?thesis
    using z constraint_values [of premium]
    by (simp add: getAnySession_def Let_def split_beta prod_eq_iff)
qed

lemmas run_defs = api1_def getAnySession_def getAnySession_range.simps
  IncrAndTestGuildTokenComboLock_def Incr_def Expire_def SRem_def next_fault_def consume_def
  formatSec_def quot_def
  lookup_def live_def put_def del_def log_err_def counter_def ttl_def healthy_def INT64_MAX_def
  Second_def Millisecond_def attempts_between_def admitted_between_def Let_def

lemma run1:
  "fst (getAnySession api1 ''100'' [''h1'', ''h2'', ''h3''] 3) = (Some (Session 3), ''h3'')"
  "sets (client (snd (getAnySession api1 ''100'' [''h1'', ''h2'', ''h3''] 3))) (GuildTokensKey ''100'') = [''h3'']"
  "attempts_between api1 (snd (getAnySession api1 ''100'' [''h1'', ''h2'', ''h3''] 3)) = [''h1'', ''h2'', ''h3'']"
  "attempts_between api1 (snd (getAnySession api1 ''100'' [''h1'', ''h2'', ''h3''] 1)) = [''h1'']"
  "counter (client (snd (getAnySession api1 ''100'' [''h1'', ''h2'', ''h3''] 3))) (GuildTokenLock ''100'' ''h1'') = 1"
  by (simp_all add: run_defs)

theorem secondary_attempts_bounded_witness:
  "(\<exists>n. int n \<le> 1 \<and>
        attempts_between api1 (snd (getAnySession api1 ''100'' [''h1'', ''h2'', ''h3''] 1)) =
          take n [''h1'', ''h2'', ''h3'']) \<and>
   attempts_between api1 (snd (getAnySession api1 ''100'' [''h1'', ''h2'', ''h3''] 1)) = [''h1''] \<and>
   constraint 2 = 1 \<and> constraint 1 = 0 \<and> constraint 77 = 0 \<and>
   getAnySession api1 ''100'' [''h1'', ''h2'', ''h3''] 0 = ((None, []), api1)"
proof -
  have c2: "constraint 2 = 1" and c1: "constraint 1 = 0"
    by (simp_all add: constraint_def PremiumBotConstraints_def)
  have e: "attempts_between api1 (snd (getAnySession api1 ''100'' [''h1'', ''h2'', ''h3''] 1)) = [''h1'']"
    by (simp add: run_defs)
  show ?thesis
    using secondary_attempts_bounded [of 2 api1 "''100''" "[''h1'', ''h2'', ''h3'']"]
      secondary_attempts_bounded [of 1 api1 "''100''" "[''h1'', ''h2'', ''h3'']"]
      secondary_attempts_bounded [of 77 api1 "''100''" "[''h1'', ''h2'', ''h3'']"] e
    by (simp add: c2 c1 Let_def split_beta prod_eq_iff)
qed

text \<open>
  C7. On a store that executes its commands, after \<open>getAnySession\<close> every token that was
  admitted and has no session in the registry is gone from the guild's token set; such a
  token does not end the loop: when no session is returned, the first \<open>limit\<close> tokens
  were all attempted, and a returned session is the registry's session of an admitted
  token.
\<close>

theorem stale_membership_removed:
  assumes "healthy (client a)" and "0 \<le> limit"
  shows "(let (r, a') = getAnySession a g tokens limit
          in (\<forall>h\<in>set (admitted_between a a').
                 activeSessions a h = None \<longrightarrow> h \<notin> set (sets (client a') (GuildTokensKey g))) \<and>
             (fst r = None \<longrightarrow> attempts_between a a' = take (nat limit) tokens) \<and>
             (\<forall>sess. fst r = Some sess \<longrightarrow>
                 activeSessions a (snd r) = Some sess \<and> snd r \<in> set (admitted_between a a')))"
proof -
  let ?res = "getAnySession_range a g limit 0 tokens"
  from range_stale [OF assms(1), of g limit 0 tokens] obtain adm where
    a1: "admitted (out (snd ?res)) = admitted (out a) @ adm"
    and a2: "\<forall>h\<in>set adm. activeSessions a h = None \<longrightarrow>
               h \<notin> set (sets (client (snd ?res)) (GuildTokensKey g))"
    and a3: "\<forall>sess. fst (fst ?res) = Some sess \<longrightarrow>
               activeSessions a (snd (fst ?res)) = Some sess \<and> snd (fst ?res) \<in> set adm"
    and a4: "fst (fst ?res) = None \<and> 0 \<le> limit \<longrightarrow>
               attempted (out (snd ?res)) = attempted (out a) @ take (nat (limit - 0)) tokens"
    by blast
  have b1: "admitted_between a (snd ?res) = adm" using a1 by (rule between_eq)
  have b4: "fst (fst ?res) = None \<longrightarrow> attempts_between a (snd ?res) = take (nat limit) tokens"
    using a4 assms(2) by (auto intro: between_eq)
  show ?thesis
    unfolding getAnySession_def split_beta Let_def b1 using a2 a3 b4 by blast
qed

theorem stale_membership_removed_witness:
  "healthy (client api1) \<and> (0::int) \<le> 3 \<and>
   admitted_between api1 (snd (getAnySession api1 ''100'' [''h1'', ''h2'', ''h3''] 3)) = [''h1'', ''h2'', ''h3''] \<and>
   activeSessions api1 ''h1'' = None \<and> activeSessions api1 ''h2'' = None \<and>
   sets (client api1) (GuildTokensKey ''100'') = [''h1'', ''h2'', ''h3''] \<and>
   ''h1'' \<notin> set (sets (client (snd (getAnySession api1 ''100'' [''h1'', ''h2'', ''h3''] 3))) (GuildTokensKey ''100'')) \<and>
   ''h2'' \<notin> set (sets (client (snd (getAnySession api1 ''100'' [''h1'', ''h2'', ''h3''] 3))) (GuildTokensKey ''100'')) \<and>
   fst (getAnySession api1 ''100'' [''h1'', ''h2'', ''h3''] 3) = (Some (Session 3), ''h3'')"
proof -
  have h1: "healthy (client api1)" by (simp add: api1_def healthy_def)
  have h2: "(0::int) \<le> 3" by simp
  have e1: "admitted_between api1 (snd (getAnySession api1 ''100'' [''h1'', ''h2'', ''h3''] 3)) = [''h1'', ''h2'', ''h3'']"
    by (simp add: run_defs)
  have e2: "activeSessions api1 ''h1'' = None" "activeSessions api1 ''h2'' = None"
    "sets (client api1) (GuildTokensKey ''100'') = [''h1'', ''h2'', ''h3'']"
    by (simp_all add: api1_def)
  have e3: "fst (getAnySession api1 ''100'' [''h1'', ''h2'', ''h3''] 3) = (Some (Session 3), ''h3'')"
    by (simp add: run_defs)
  show ?thesis
    using stale_membership_removed [OF h1 h2, of "''100''" "[''h1'', ''h2'', ''h3'']"] h1 e2 e3
    by (simp add: split_beta e1)
qed

text \<open>
  C10. On a store that executes its commands, with distinct tokens and counters below the
  64-bit maximum: every token \<open>getAnySession\<close> attempts has its counter one higher
  afterwards, whether or not the registry holds a session for it; every admitted token
  has its expiry five seconds from now; and an admitted token without a session has paid
  that unit although it is removed from the guild's set and never returned as the session
  to use.
\<close>

theorem stale_entry_consumes_quota:
  assumes "healthy (client a)"
    and "distinct tokens"
    and "\<forall>h\<in>set tokens. counter (client a) (GuildTokenLock g h) < INT64_MAX"
  shows "(let (r, a') = getAnySession a g tokens limit
          in (\<forall>h\<in>set (attempts_between a a').
                 counter (client a') (GuildTokenLock g h) = counter (client a) (GuildTokenLock g h) + 1) \<and>
             (\<forall>h\<in>set (admitted_between a a').
                 ttl (client a') (GuildTokenLock g h) = Some (now (client a) + nat (Second * 5)) \<and>
                 (activeSessions a h = None \<longrightarrow>
                    h \<notin> set (sets (client a') (GuildTokensKey g)) \<and> (\<forall>sess. r \<noteq> (Some sess, h)))))"
proof -
  let ?res = "getAnySession_range a g limit 0 tokens"
  from range_counters [OF assms, of limit 0] obtain n adm where
    a1: "attempted (out (snd ?res)) = attempted (out a) @ take n tokens"
    and a2: "admitted (out (snd ?res)) = admitted (out a) @ adm"
    and a3: "\<forall>h. counter (client (snd ?res)) (GuildTokenLock g h) =
             counter (client a) (GuildTokenLock g h) + (if h \<in> set (take n tokens) then 1 else 0)"
    and a4: "\<forall>h\<in>set adm. ttl (client (snd ?res)) (GuildTokenLock g h) =
             Some (now (client a) + nat (Second * 5))"
    by blast
  from range_stale [OF assms(1), of g limit 0 tokens] obtain adm' where
    s1: "admitted (out (snd ?res)) = admitted (out a) @ adm'"
    and s2: "\<forall>h\<in>set adm'. activeSessions a h = None \<longrightarrow>
               h \<notin> set (sets (client (snd ?res)) (GuildTokensKey g))"
    and s3: "\<forall>sess. fst (fst ?res) = Some sess \<longrightarrow>
               activeSessions a (snd (fst ?res)) = Some sess \<and> snd (fst ?res) \<in> set adm'"
    by blast
  have same: "adm' = adm" using a2 s1 by simp
  have b1: "attempts_between a (snd ?res) = take n tokens" using a1 by (rule between_eq)
  have b2: "admitted_between a (snd ?res) = adm" using a2 by (rule between_eq)
  have c1: "\<forall>h\<in>set (take n tokens).
      counter (client (snd ?res)) (GuildTokenLock g h) = counter (client a) (GuildTokenLock g h) + 1"
    using a3 by simp
  have c3: "\<forall>h\<in>set adm. activeSessions a h = None \<longrightarrow> (\<forall>sess. fst ?res \<noteq> (Some sess, h))"
    using s3 by (auto simp: prod_eq_iff)
  show ?thesis
    using c1 a4 s2 c3 by (simp add: getAnySession_def split_beta b1 b2 same)
qed

theorem stale_entry_consumes_quota_witness:
  "healthy (client api1) \<and> distinct [''h1'', ''h2'', ''h3''] \<and>
   counter (client api1) (GuildTokenLock ''100'' ''h1'') < INT64_MAX \<and>
   counter (client api1) (GuildTokenLock ''100'' ''h2'') < INT64_MAX \<and>
   counter (client api1) (GuildTokenLock ''100'' ''h3'') < INT64_MAX \<and>
   ''h1'' \<in> set (admitted_between api1 (snd (getAnySession api1 ''100'' [''h1'', ''h2'', ''h3''] 3))) \<and>
   activeSessions api1 ''h1'' = None \<and>
   counter (client api1) (GuildTokenLock ''100'' ''h1'') = 0 \<and>
   counter (client (snd (getAnySession api1 ''100'' [''h1'', ''h2'', ''h3''] 3))) (GuildTokenLock ''100'' ''h1'') = 1 \<and>
   ttl (client (snd (getAnySession api1 ''100'' [''h1'', ''h2'', ''h3''] 3))) (GuildTokenLock ''100'' ''h1'') = Some 5000000000 \<and>
   fst (getAnySession api1 ''100'' [''h1'', ''h2'', ''h3''] 3) \<noteq> (Some (Session 3), ''h1'')"
proof -
  have h1: "healthy (client api1)" by (simp add: api1_def healthy_def)
  have h2: "distinct [''h1'', ''h2'', ''h3'']" by simp
  have h3: "\<forall>h\<in>set [''h1'', ''h2'', ''h3'']. counter (client api1) (GuildTokenLock ''100'' h) < INT64_MAX"
    by (simp add: api1_def counter_def lookup_def INT64_MAX_def)
  have e1: "attempts_between api1 (snd (getAnySession api1 ''100'' [''h1'', ''h2'', ''h3''] 3)) = [''h1'', ''h2'', ''h3'']"
    and e2: "admitted_between api1 (snd (getAnySession api1 ''100'' [''h1'', ''h2'', ''h3''] 3)) = [''h1'', ''h2'', ''h3'']"
    by (simp_all add: run_defs)
  have e3: "activeSessions api1 ''h1'' = None" "counter (client api1) (GuildTokenLock ''100'' ''h1'') = 0"
    "now (client api1) = 0"
    by (simp_all add: api1_def counter_def lookup_def)
  show ?thesis
    using stale_entry_consumes_quota [OF h1 h2 h3, of 3] h1 h3 e3
    by (simp add: split_beta e1 e2 Second_def Millisecond_def)
qed

section \<open>Facts about the handler\<close>









lemma calls_append [simp]: "calls (xs @ ys) = calls xs @ calls ys"
  by (induction xs rule: calls.induct) simp_all











text \<open>
  C8. \<open>waitForAck\<close> reports true exactly when the \<open>select\<close> receives a message whose
  payload is the string "true": the first message arrives before the timer is ready (or at
  that very instant and the runtime picks the channel). Any other payload, and the timer,
  give false. The subscription is closed in every case. The default wait is 1000 ms.
\<close>

theorem waitForAck_result:
  "fst (waitForAck pubsub (select_case waitTime msg pick)) =
     (\<exists>t. msg = Some (t, ''true'') \<and>
          (int t < max 0 waitTime \<or> int t = max 0 waitTime \<and> pick)) \<and>
   closed (snd (waitForAck pubsub ev)) \<and>
   fst (waitForAck pubsub TimerFired) = False \<and>
   fst (waitForAck pubsub (Received p)) = (p = ''true'') \<and>
   DefaultCaptureBotTimeout = 1000 * Millisecond \<and>
   env_taskTimeoutms None = DefaultCaptureBotTimeout"
  by (cases ev; cases msg)
     (auto simp: waitForAck_def select_case_def DefaultCaptureBotTimeout_def Second_def
        env_taskTimeoutms_def split: if_splits)

theorem waitForAck_result_witness:
  "fst (waitForAck \<lparr>closed = False\<rparr>
          (select_case DefaultCaptureBotTimeout (Some (200000000, ''true'')) False)) = True \<and>
   fst (waitForAck \<lparr>closed = False\<rparr>
          (select_case DefaultCaptureBotTimeout (Some (200000000, ''false'')) False)) = False \<and>
   fst (waitForAck \<lparr>closed = False\<rparr>
          (select_case DefaultCaptureBotTimeout (Some (1200000000, ''true'')) False)) = False \<and>
   fst (waitForAck \<lparr>closed = False\<rparr> (select_case DefaultCaptureBotTimeout None False)) = False \<and>
   closed (snd (waitForAck \<lparr>closed = False\<rparr> TimerFired))"
  using waitForAck_result [of "\<lparr>closed = False\<rparr>" DefaultCaptureBotTimeout "Some (200000000, ''true'')" False TimerFired]
    waitForAck_result [of "\<lparr>closed = False\<rparr>" DefaultCaptureBotTimeout "Some (200000000, ''false'')" False TimerFired]
    waitForAck_result [of "\<lparr>closed = False\<rparr>" DefaultCaptureBotTimeout "Some (1200000000, ''true'')" False TimerFired]
    waitForAck_result [of "\<lparr>closed = False\<rparr>" DefaultCaptureBotTimeout None False TimerFired]
  by (simp add: DefaultCaptureBotTimeout_def Second_def Millisecond_def)

end
